theory Spec2Isabelle
  imports Main "HOL-Library.Word" "HOL-Library.Signed_Division" "HOL-Library.Monad_Syntax"
begin

section \<open>Characters, pointers and memory\<close>

text \<open>
  The program is C. A \<open>char\<close> is one byte, read as a signed value when it is promoted
  to \<open>int\<close> (\<open>sint\<close>); every comparison and sum in the source is done on the promoted
  value. The \<open>int\<close> variables of the source (lengths, cursors, sums of two characters)
  are modelled as unbounded integers: strings are taken to be shorter than \<open>2 ^ 31\<close>
  characters, so that no \<open>int\<close> of the source overflows.

  A \<open>char *\<close> is either \<open>NULL\<close> or points into memory. Memory is a flat store addressed
  by the offset from the pointer, so that \<open>key[i]\<close> is \<open>key i\<close> for every \<open>int\<close>
  value of \<open>i\<close>, also outside the block the string was allocated in; what lies
  outside is arbitrary. A subscript that leaves the block is recorded next to the
  result.
\<close>

type_synonym cchar = "8 word"
type_synonym cmem = "int \<Rightarrow> cchar"

datatype 'a ptr = is_null: NULL | Ptr 'a

text \<open>What a function hands back: \<open>NULL\<close> after printing diagnostics, or a pointer.\<close>

datatype 'a ret = Failed "string list" | Returned 'a

text \<open>The C string with characters \<open>xs\<close> at offset 0, its terminator, and \<open>bg\<close> around it.\<close>

definition store_of :: "cmem \<Rightarrow> cchar list \<Rightarrow> cmem" where
  "store_of bg xs =
     (\<lambda>i. if 0 \<le> i \<and> i < int (length xs) then xs ! nat i
          else if i = int (length xs) then 0 else bg i)"

definition string_at :: "cmem \<Rightarrow> nat \<Rightarrow> cchar list" where
  "string_at m n = map (\<lambda>j. m (int j)) [0..<n]"

definition bytes :: "string \<Rightarrow> cchar list" where
  "bytes s = map (\<lambda>c. of_char c) s"

text \<open>\<open>strlen\<close> walks to the first zero byte; it does not return when there is none.\<close>

partial_function (option) strlen_from :: "cmem \<Rightarrow> int \<Rightarrow> int option" where
  [code]: "strlen_from m n = (if m n = 0 then Some n else strlen_from m (n + 1))"

definition strlen :: "cmem \<Rightarrow> int option" where
  "strlen m = strlen_from m 0"

text \<open>
  \<open>strcpy(&m[dst], &m[src])\<close> inside one block copies the \<open>n\<close> characters of the
  source string and its terminator. When the \<open>n + 1\<close> bytes read and the \<open>n + 1\<close>
  bytes written do not overlap, the result is the copy. When they overlap, the C standard
  leaves the behaviour undefined, and libraries differ in what they store; the source
  calls it with \<open>dst = src - 1\<close>, which overlaps whenever the source string is not empty.
  The bytes an overlapping call stores are therefore a parameter \<open>lib\<close> of the model:
  \<open>lib m dst src n\<close> is the memory as this library leaves it. The call is taken to
  store into the \<open>n + 1\<close> bytes of its destination and nowhere else. The bytes
  \<open>strcpy\<close> touches are not recorded.
\<close>

type_synonym overlap = "cmem \<Rightarrow> int \<Rightarrow> int \<Rightarrow> nat \<Rightarrow> cmem"

definition overlaps :: "int \<Rightarrow> int \<Rightarrow> nat \<Rightarrow> bool" where
  "overlaps dst src n \<longleftrightarrow> dst - src \<le> int n \<and> src - dst \<le> int n"

text \<open>
  Two ways to copy \<open>n + 1\<close> bytes, equal on every call that does not overlap: byte by
  byte from the first to the last, and from the last to the first.
\<close>

fun copy_up :: overlap where
  "copy_up m dst src 0 = m(dst := m src)"
| "copy_up m dst src (Suc n) = copy_up (m(dst := m src)) (dst + 1) (src + 1) n"

fun copy_down :: overlap where
  "copy_down m dst src 0 = m(dst := m src)"
| "copy_down m dst src (Suc n) =
     copy_down (m(dst + int (Suc n) := m (src + int (Suc n)))) dst src n"

text \<open>
  A third way, as routines that move machine words do for short strings: 5 to 7 bytes
  are copied as two overlapping words of 4 bytes, the first one stored before the second
  one is loaded; any other number of bytes from the first to the last.
\<close>

definition load4 :: "cmem \<Rightarrow> int \<Rightarrow> cchar list" where
  "load4 m a = [m a, m (a + 1), m (a + 2), m (a + 3)]"

definition store4 :: "cmem \<Rightarrow> int \<Rightarrow> cchar list \<Rightarrow> cmem" where
  "store4 m a w = (\<lambda>j. if a \<le> j \<and> j < a + 4 then w ! nat (j - a) else m j)"

definition copy_words :: overlap where
  "copy_words m dst src n =
     (if 4 \<le> n \<and> n \<le> 6
      then (let m1 = store4 m dst (load4 m src);
                t = int n - 3
            in store4 m1 (dst + t) (load4 m1 (src + t)))
      else copy_up m dst src n)"

definition strcpy :: "overlap \<Rightarrow> cmem \<Rightarrow> int \<Rightarrow> int \<Rightarrow> cmem option" where
  "strcpy lib m dst src =
     do { e \<leftarrow> strlen_from m src;
          let n = nat (e - src);
          Some (if overlaps dst src n
                then (\<lambda>j. if dst \<le> j \<and> j \<le> dst + int n then lib m dst src n j else m j)
                else copy_up m dst src n) }"

definition c_string_of :: "cmem \<Rightarrow> cchar list option" where
  "c_string_of m = map_option (\<lambda>n. string_at m (nat n)) (strlen m)"

section \<open>The alphabet (enum AsciiRange and the predicates)\<close>

definition uppercase_upper :: int where "uppercase_upper = 90"
definition uppercase_lower :: int where "uppercase_lower = 65"
definition lowercase_upper :: int where "lowercase_upper = 122"
definition lowercase_lower :: int where "lowercase_lower = 97"
definition range_distance :: int where "range_distance = 32"

definition isUppercase :: "cchar \<Rightarrow> bool" where
  "isUppercase c \<longleftrightarrow> sint c \<ge> uppercase_lower \<and> sint c \<le> uppercase_upper"

definition isLowercase :: "cchar \<Rightarrow> bool" where
  "isLowercase c \<longleftrightarrow> sint c \<ge> lowercase_lower \<and> sint c \<le> lowercase_upper"

definition inBounds :: "cchar \<Rightarrow> bool" where
  "inBounds c = (if isLowercase c \<or> isUppercase c then True else False)"

definition getFloor :: "cchar \<Rightarrow> int" where
  "getFloor c = (if isLowercase c then lowercase_lower else uppercase_lower)"

section \<open>calculateRotShift\<close>

text \<open>
  \<open>%\<close> of C truncates towards zero (\<open>smod\<close>); the \<open>int\<close> result is converted back
  to \<open>char\<close> on return.
\<close>

definition calculateRotShift :: "cchar \<Rightarrow> cchar \<Rightarrow> cchar" where
  "calculateRotShift c offset =
     (let inFloor = getFloor c; offsetFloor = getFloor offset
      in word_of_int ((((sint c + sint offset) - (inFloor + offsetFloor)) smod 26) + inFloor))"

section \<open>correctKey\<close>

text \<open>
  The loop variables of \<open>correctKey\<close>, the key buffer it rewrites in place, and the
  subscripts that left the block \<open>0 .. hi\<close> the key was allocated in (\<open>hi\<close> is the
  offset of the terminator on entry).
\<close>

record ck_state =
  ck_i :: int
  ck_length :: int
  ck_key :: cmem
  ck_oob :: "int list"

definition touch :: "int \<Rightarrow> int \<Rightarrow> int list \<Rightarrow> int list" where
  "touch hi idx log = (if 0 \<le> idx \<and> idx \<le> hi then log else log @ [idx])"

text \<open>Lines 148 to 152: a character that is no letter is removed and \<open>i\<close> steps back.\<close>

definition drop_invalid :: "overlap \<Rightarrow> int \<Rightarrow> ck_state \<Rightarrow> ck_state option" where
  "drop_invalid lib hi s =
     (let i = ck_i s; key = ck_key s; s1 = s\<lparr>ck_oob := touch hi i (ck_oob s)\<rparr>
      in if \<not> inBounds (key i)
         then do {
           key' \<leftarrow> strcpy lib key i (i + 1);
           Some (s1\<lparr>ck_key := key', ck_i := i - 1, ck_length := ck_length s - 1\<rparr>) }
         else Some s1)"

text \<open>Lines 155 to 157: \<open>key[i]\<close> is read again, at the value \<open>i\<close> has by now.\<close>

definition fold_upper :: "int \<Rightarrow> ck_state \<Rightarrow> ck_state" where
  "fold_upper hi s =
     (let i = ck_i s; key = ck_key s; s1 = s\<lparr>ck_oob := touch hi i (ck_oob s)\<rparr>
      in if isUppercase (key i)
         then s1\<lparr>ck_key := key(i := word_of_int (sint (key i) + range_distance)),
                 ck_oob := touch hi i (ck_oob s1)\<rparr>
         else s1)"

definition correctKey_body :: "overlap \<Rightarrow> int \<Rightarrow> ck_state \<Rightarrow> ck_state option" where
  "correctKey_body lib hi s =
     do { s1 \<leftarrow> drop_invalid lib hi s;
          let s2 = fold_upper hi s1;
          Some (s2\<lparr>ck_i := ck_i s2 + 1\<rparr>) }"

function correctKey_loop :: "overlap \<Rightarrow> int \<Rightarrow> ck_state \<Rightarrow> ck_state option" where
  "correctKey_loop lib hi s =
     (if ck_i s < ck_length s
      then (case correctKey_body lib hi s of None \<Rightarrow> None
            | Some s' \<Rightarrow> correctKey_loop lib hi s')
      else Some s)"
  by pat_completeness auto
termination
proof (relation "measure (\<lambda>(lib, hi, s). nat (ck_length s - ck_i s))")
  show "wf (measure (\<lambda>(lib, hi, s). nat (ck_length s - ck_i s)))" by simp
next
  fix lib :: overlap and hi s s'
  assume run: "ck_i s < ck_length s" and body: "correctKey_body lib hi s = Some s'"
  from body have "ck_length s' - ck_i s' = ck_length s - ck_i s - 1"
    by (auto simp: correctKey_body_def drop_invalid_def fold_upper_def Let_def
             split: if_splits bind_splits)
  with run show "((lib, hi, s'), (lib, hi, s))
      \<in> measure (\<lambda>(lib, hi, s). nat (ck_length s - ck_i s))"
    by simp
qed

declare correctKey_loop.simps [simp del]

text \<open>
  \<open>realloc\<close> to a smaller size keeps the bytes of the block; that it may fail is not
  modelled.
\<close>

definition realloc :: "cmem \<Rightarrow> int \<Rightarrow> cmem" where
  "realloc m n = m"

fun correctKey :: "overlap \<Rightarrow> cmem ptr \<Rightarrow> ck_state ret option" where
  "correctKey lib (Ptr key) =
     do { len \<leftarrow> strlen key;
          s \<leftarrow> correctKey_loop lib len \<lparr>ck_i = 0, ck_length = len, ck_key = key, ck_oob = []\<rparr>;
          n \<leftarrow> strlen (ck_key s);
          let key' = realloc (ck_key s) (n + 1);
          n' \<leftarrow> strlen key';
          Some (Returned (s\<lparr>ck_key := key'(n' := 0)\<rparr>)) }"
| "correctKey lib NULL = Some (Failed [''[correctKey] key was NULL!''])"

section \<open>vigenere\<close>

text \<open>
  The loop variables of \<open>vigenere\<close>, the plaintext buffer it overwrites, and the
  subscripts of \<open>key\<close> that left the key's block \<open>0 .. keylen\<close>. The key and the
  plaintext are two blocks.
\<close>

record vg_state =
  vg_i :: int
  vg_keyi :: int
  vg_plainText :: cmem
  vg_oob :: "int list"

text \<open>Lines 188 to 190: the cursor goes back to 0 when it has reached \<open>keylen\<close>.\<close>

definition wrap_cursor :: "int \<Rightarrow> int \<Rightarrow> int" where
  "wrap_cursor keylen keyi = (if keyi = keylen then 0 else keyi)"

text \<open>Lines 188 to 196, one iteration; \<open>key[keyi]\<close> is read for a letter only.\<close>

definition vigenere_body :: "cmem \<Rightarrow> int \<Rightarrow> vg_state \<Rightarrow> vg_state" where
  "vigenere_body key keylen s =
     (let keyi = wrap_cursor keylen (vg_keyi s);
          i = vg_i s;
          plainText = vg_plainText s;
          s1 = (if inBounds (plainText i)
                then s\<lparr>vg_plainText := plainText(i := calculateRotShift (plainText i) (key keyi)),
                       vg_oob := touch keylen keyi (vg_oob s)\<rparr>
                else s)
      in s1\<lparr>vg_keyi := keyi + 1, vg_i := i + 1\<rparr>)"

function vigenere_loop :: "cmem \<Rightarrow> int \<Rightarrow> int \<Rightarrow> vg_state \<Rightarrow> vg_state" where
  "vigenere_loop key keylen len s =
     (if vg_i s < len then vigenere_loop key keylen len (vigenere_body key keylen s)
      else s)"
  by pat_completeness auto
termination
  by (relation "measure (\<lambda>(key, keylen, len, s). nat (len - vg_i s))")
     (auto simp: vigenere_body_def Let_def)

declare vigenere_loop.simps [simp del]

fun vigenere :: "cmem ptr \<Rightarrow> cmem ptr \<Rightarrow> vg_state ret option" where
  "vigenere (Ptr plainText) (Ptr key) =
     do { keylen \<leftarrow> strlen key;
          len \<leftarrow> strlen plainText;
          Some (Returned (vigenere_loop key keylen len
                  \<lparr>vg_i = 0, vg_keyi = 0, vg_plainText = plainText, vg_oob = []\<rparr>)) }"
| "vigenere plainText key =
     Some (Failed ((if is_null plainText then [''[vigenere] plainText was NULL!''] else [])
                 @ (if is_null key then [''[vigenere] key was NULL!''] else [])))"

text \<open>
  The state with which the loop is entered (lines 183 to 187), and the state on entering
  iteration \<open>n\<close>: the body applied \<open>n\<close> times.
\<close>

definition vigenere_start :: "cmem \<Rightarrow> vg_state" where
  "vigenere_start plainText = \<lparr>vg_i = 0, vg_keyi = 0, vg_plainText = plainText, vg_oob = []\<rparr>"

definition vigenere_at :: "cmem \<Rightarrow> int \<Rightarrow> cmem \<Rightarrow> nat \<Rightarrow> vg_state" where
  "vigenere_at key keylen plainText n = (vigenere_body key keylen ^^ n) (vigenere_start plainText)"

section \<open>Observing a call\<close>

text \<open>
  The string a returned pointer points to, and the subscripts that left their block
  during the call. \<open>cstr\<close> is a pointer to a string literal in zeroed memory.
\<close>

definition zero_mem :: cmem where
  "zero_mem = (\<lambda>i. 0)"

definition cstr :: "string \<Rightarrow> cmem ptr" where
  "cstr s = Ptr (store_of zero_mem (bytes s))"

definition key_of :: "ck_state ret option \<Rightarrow> cchar list option" where
  "key_of r = (case r of Some (Returned s) \<Rightarrow> c_string_of (ck_key s) | _ \<Rightarrow> None)"

definition key_oob :: "ck_state ret option \<Rightarrow> int list option" where
  "key_oob r = (case r of Some (Returned s) \<Rightarrow> Some (ck_oob s) | _ \<Rightarrow> None)"

definition ciphertext_of :: "vg_state ret option \<Rightarrow> cchar list option" where
  "ciphertext_of r = (case r of Some (Returned s) \<Rightarrow> c_string_of (vg_plainText s) | _ \<Rightarrow> None)"

definition cipher_oob :: "vg_state ret option \<Rightarrow> int list option" where
  "cipher_oob r = (case r of Some (Returned s) \<Rightarrow> Some (vg_oob s) | _ \<Rightarrow> None)"

definition iterations :: "vg_state ret option \<Rightarrow> int option" where
  "iterations r = (case r of Some (Returned s) \<Rightarrow> Some (vg_i s) | _ \<Rightarrow> None)"



section \<open>The specification's words\<close>

text \<open>
  A canonical key is a sequence of lowercase letters. \<open>spec_normalize\<close> is the
  specification's description of key normalisation: the letters in their order, every
  uppercase one moved by the case distance 32. \<open>spec_decipher\<close> is its inverse transform,
  which the source does not have: the pass over the positions, key character
  \<open>i mod length k\<close> at position \<open>i\<close>, with the rotation offset negated.
\<close>

definition canonical :: "cchar list \<Rightarrow> bool" where
  "canonical k = list_all isLowercase k"

definition spec_normalize :: "cchar list \<Rightarrow> cchar list" where
  "spec_normalize xs = map (\<lambda>c. if isUppercase c then c + 32 else c) (filter inBounds xs)"

definition spec_unrotate :: "cchar \<Rightarrow> cchar \<Rightarrow> cchar" where
  "spec_unrotate c k =
     word_of_int (getFloor c + ((sint c - getFloor c) + - (sint k - getFloor k)) mod 26)"

definition spec_decipher :: "cchar list \<Rightarrow> cchar list \<Rightarrow> cchar list" where
  "spec_decipher c k =
     map (\<lambda>i. if inBounds (c ! i) then spec_unrotate (c ! i) (k ! (i mod length k)) else c ! i)
       [0..<length c]"

section \<open>Auxiliary notions of the proofs\<close>

text \<open>
  \<open>holds m xs\<close>: the store has the characters \<open>xs\<close> at offsets 0 onwards, followed
  by the terminator. \<open>to_lower\<close> is the case fold of line 156 on a character value.
\<close>

definition holds :: "cmem \<Rightarrow> cchar list \<Rightarrow> bool" where
  "holds m xs \<longleftrightarrow> (\<forall>j<length xs. m (int j) = xs ! j) \<and> m (int (length xs)) = 0"

definition to_lower :: "cchar \<Rightarrow> cchar" where
  "to_lower c = (if isUppercase c then c + 32 else c)"

text \<open>What the pass leaves at position \<open>i\<close> of the plaintext \<open>p\<close> under the key \<open>k\<close>.\<close>

definition rotated :: "cchar list \<Rightarrow> cchar list \<Rightarrow> nat \<Rightarrow> cchar" where
  "rotated p k i =
     (if inBounds (p ! i) then calculateRotShift (p ! i) (k ! (i mod length k)) else p ! i)"

definition ciphered :: "cchar list \<Rightarrow> cchar list \<Rightarrow> cchar list" where
  "ciphered p k = map (rotated p k) [0..<length p]"

section \<open>Arithmetic of the rotation\<close>

lemmas alphabet_defs = isUppercase_def isLowercase_def inBounds_def getFloor_def
  uppercase_upper_def uppercase_lower_def lowercase_upper_def lowercase_lower_def

lemma sint_char_of_int: "- 128 \<le> v \<Longrightarrow> v < 128 \<Longrightarrow> sint (word_of_int v :: cchar) = v"
  by (simp add: int_word_sint)

lemma smod_nonneg: "0 \<le> (a::int) \<Longrightarrow> a smod 26 = a mod 26"
  by (cases "a = 0") (simp_all add: signed_modulo_int_def)

lemma rot_value:
  assumes "inBounds c" and "inBounds k"
  shows "sint (calculateRotShift c k)
           = getFloor c + ((sint c - getFloor c) + (sint k - getFloor k)) mod 26"
proof -
  define x where "x = sint c - getFloor c"
  define y where "y = sint k - getFloor k"
  have x: "0 \<le> x" "x \<le> 25"
    using assms(1) by (auto simp: x_def alphabet_defs split: if_splits)
  have y: "0 \<le> y" "y \<le> 25"
    using assms(2) by (auto simp: y_def alphabet_defs split: if_splits)
  have sum: "(sint c + sint k) - (getFloor c + getFloor k) = x + y"
    by (simp add: x_def y_def)
  have m: "(x + y) smod 26 = (x + y) mod 26"
    using x y by (simp add: smod_nonneg)
  have r: "0 \<le> (x + y) mod 26" "(x + y) mod 26 < 26"
    by simp_all
  have fl: "getFloor c = 65 \<or> getFloor c = 97"
    by (simp add: alphabet_defs)
  have "sint (calculateRotShift c k) = getFloor c + (x + y) mod 26"
    unfolding calculateRotShift_def Let_def sum m
    using r fl by (subst sint_char_of_int) auto
  then show ?thesis by (simp add: x_def y_def)
qed

lemma rot_case:
  assumes "inBounds c" and "inBounds k"
  shows "isLowercase c \<Longrightarrow> isLowercase (calculateRotShift c k)"
    and "isUppercase c \<Longrightarrow> isUppercase (calculateRotShift c k)"
proof -
  let ?r = "((sint c - getFloor c) + (sint k - getFloor k)) mod 26"
  have r: "0 \<le> ?r" "?r < 26" by simp_all
  show "isLowercase c \<Longrightarrow> isLowercase (calculateRotShift c k)"
    using rot_value [OF assms] r by (simp add: alphabet_defs)
  show "isUppercase c \<Longrightarrow> isUppercase (calculateRotShift c k)"
    using rot_value [OF assms] r by (auto simp: alphabet_defs)
qed

lemma rot_inBounds:
  assumes "inBounds c" and "inBounds k"
  shows "inBounds (calculateRotShift c k)"
proof (cases "isLowercase c")
  case True
  from rot_case(1) [OF assms True] show ?thesis by (simp add: inBounds_def)
next
  case False
  with assms(1) have "isUppercase c" by (simp add: inBounds_def split: if_splits)
  from rot_case(2) [OF assms this] show ?thesis by (simp add: inBounds_def)
qed

lemma rot_floor:
  assumes "inBounds c" and "inBounds k"
  shows "getFloor (calculateRotShift c k) = getFloor c"
proof (cases "isLowercase c")
  case True
  from rot_case(1) [OF assms True] True show ?thesis by (simp add: getFloor_def)
next
  case False
  with assms(1) have u: "isUppercase c" by (simp add: inBounds_def split: if_splits)
  from rot_case(2) [OF assms u] have "\<not> isLowercase (calculateRotShift c k)"
    by (simp add: alphabet_defs)
  with False show ?thesis by (simp add: getFloor_def)
qed

lemma inBounds_nonzero: "inBounds c \<Longrightarrow> c \<noteq> 0"
  by (auto simp: alphabet_defs)

lemma unrotate_rot:
  assumes c: "inBounds c" and k: "inBounds k"
  shows "spec_unrotate (calculateRotShift c k) k = c"
proof -
  define x where "x = sint c - getFloor c"
  define y where "y = sint k - getFloor k"
  have x: "0 \<le> x" "x < 26"
    using c by (auto simp: x_def alphabet_defs split: if_splits)
  have "((x + y) mod 26 - y) mod 26 = x mod 26"
    by (simp add: mod_diff_left_eq)
  then have undo: "((x + y) mod 26 - y) mod 26 = x"
    using x by simp
  have "sint (calculateRotShift c k) - getFloor c = (x + y) mod 26"
    using rot_value [OF c k] by (simp add: x_def y_def)
  then have "spec_unrotate (calculateRotShift c k) k
          = word_of_int (getFloor c + ((x + y) mod 26 + - y) mod 26)"
    unfolding spec_unrotate_def rot_floor [OF c k] y_def by simp
  then have "spec_unrotate (calculateRotShift c k) k
          = word_of_int (getFloor c + ((x + y) mod 26 - y) mod 26)"
    by simp
  also have "getFloor c + ((x + y) mod 26 - y) mod 26 = sint c"
    unfolding undo by (simp add: x_def)
  finally show ?thesis by simp
qed

text \<open>
  C6. For two letters, \<open>calculateRotShift\<close> is the case floor of the input character plus
  the sum of the two offsets modulo 26; the value of the \<open>%\<close> step of the source lies in
  0 to 25, and the result is a letter of the case of the input character.
\<close>

theorem calculateRotShift_letters:
  assumes "inBounds c" and "inBounds k"
  shows "sint (calculateRotShift c k)
           = getFloor c + ((sint c - getFloor c) + (sint k - getFloor k)) mod 26
       \<and> 0 \<le> ((sint c + sint k) - (getFloor c + getFloor k)) smod 26
       \<and> ((sint c + sint k) - (getFloor c + getFloor k)) smod 26 < 26
       \<and> (isLowercase c \<longrightarrow> isLowercase (calculateRotShift c k))
       \<and> (isUppercase c \<longrightarrow> isUppercase (calculateRotShift c k))"
proof -
  have "0 \<le> sint c - getFloor c"
    using assms(1) by (auto simp: alphabet_defs split: if_splits)
  moreover have "0 \<le> sint k - getFloor k"
    using assms(2) by (auto simp: alphabet_defs split: if_splits)
  ultimately have "0 \<le> (sint c + sint k) - (getFloor c + getFloor k)"
    by simp
  then have step: "((sint c + sint k) - (getFloor c + getFloor k)) smod 26
                = ((sint c + sint k) - (getFloor c + getFloor k)) mod 26"
    by (rule smod_nonneg)
  have same: "(sint c - getFloor c) + (sint k - getFloor k)
            = (sint c + sint k) - (getFloor c + getFloor k)"
    by simp
  show ?thesis
    unfolding step using rot_value [OF assms] rot_case [OF assms] by (simp add: same)
qed

theorem calculateRotShift_letters_witness:
  "inBounds 89 \<and> inBounds 101 \<and> isUppercase 89 \<and> sint (calculateRotShift 89 101) = 67
   \<and> isUppercase (calculateRotShift 89 101)"
  using calculateRotShift_letters [of 89 101] by (simp add: alphabet_defs)

section \<open>Strings in the store\<close>

lemma holds_store_of: "holds (store_of bg xs) xs"
  by (simp add: holds_def store_of_def)

lemma holds_nth: "holds m xs \<Longrightarrow> j < length xs \<Longrightarrow> m (int j) = xs ! j"
  by (simp add: holds_def)

lemma holds_end: "holds m xs \<Longrightarrow> m (int (length xs)) = 0"
  by (simp add: holds_def)

lemma strlen_from_found:
  assumes "n \<le> e" and "m e = 0" and "\<forall>j. n \<le> j \<and> j < e \<longrightarrow> m j \<noteq> 0"
  shows "strlen_from m n = Some e"
  using assms
proof (induction "nat (e - n)" arbitrary: n)
  case 0
  then have "n = e" by simp
  with 0 show ?case by (simp add: strlen_from.simps)
next
  case (Suc d)
  then have "n < e" and "m n \<noteq> 0" by auto
  moreover have "strlen_from m (n + 1) = Some e"
    using Suc by (intro Suc.hyps(1)) auto
  ultimately show ?case by (subst strlen_from.simps) simp
qed

lemma strlen_holds:
  assumes "holds m xs" and "0 \<notin> set xs"
  shows "strlen m = Some (int (length xs))"
  unfolding strlen_def
proof (rule strlen_from_found)
  show "\<forall>j. 0 \<le> j \<and> j < int (length xs) \<longrightarrow> m j \<noteq> 0"
  proof (intro allI impI)
    fix j :: int assume "0 \<le> j \<and> j < int (length xs)"
    then have j: "0 \<le> j" "nat j < length xs" by auto
    then have "m j = xs ! nat j" using holds_nth [OF assms(1), of "nat j"] by simp
    moreover have "xs ! nat j \<in> set xs" using j by (intro nth_mem)
    ultimately show "m j \<noteq> 0" using assms(2) by auto
  qed
qed (use assms in \<open>simp_all add: holds_def\<close>)

lemma string_at_holds: "holds m xs \<Longrightarrow> string_at m (length xs) = xs"
  by (rule nth_equalityI) (simp_all add: string_at_def holds_nth)

lemma c_string_of_holds:
  "holds m xs \<Longrightarrow> 0 \<notin> set xs \<Longrightarrow> c_string_of m = Some xs"
  by (simp add: c_string_of_def strlen_holds string_at_holds)

lemma strlen_from_some:
  assumes "n \<le> e" and "m e = 0"
  shows "\<exists>e'. strlen_from m n = Some e' \<and> n \<le> e' \<and> e' \<le> e"
  using assms
proof (induction "nat (e - n)" arbitrary: n)
  case 0
  then have "n = e" by simp
  with 0 show ?case by (subst strlen_from.simps) simp
next
  case (Suc d)
  show ?case
  proof (cases "m n = 0")
    case True
    with Suc.prems show ?thesis by (subst strlen_from.simps) simp
  next
    case False
    with Suc.prems have "n + 1 \<le> e" by (cases "n = e") auto
    moreover from Suc.hyps(2) have "d = nat (e - (n + 1))" by simp
    ultimately obtain e' where "strlen_from m (n + 1) = Some e'" "n + 1 \<le> e'" "e' \<le> e"
      using Suc.hyps(1) [of "n + 1"] Suc.prems(2) by blast
    with False show ?thesis by (subst strlen_from.simps) auto
  qed
qed

lemma copy_up_outside:
  "j < dst \<or> dst + int n < j \<Longrightarrow> copy_up m dst src n j = m j"
  by (induction n arbitrary: m dst src) auto

lemma copy_up_shift:
  "copy_up m (s - 1) s n = (\<lambda>j. if s - 1 \<le> j \<and> j \<le> s - 1 + int n then m (j + 1) else m j)"
proof (induction n arbitrary: m s)
  case 0
  show ?case by (rule ext) auto
next
  case (Suc n)
  have "copy_up (m(s - 1 := m s)) (s + 1 - 1) (s + 1) n
          = (\<lambda>j. if s + 1 - 1 \<le> j \<and> j \<le> s + 1 - 1 + int n
                  then (m(s - 1 := m s)) (j + 1) else (m(s - 1 := m s)) j)"
    by (rule Suc.IH)
  then have "copy_up (m(s - 1 := m s)) s (s + 1) n
          = (\<lambda>j. if s - 1 \<le> j \<and> j \<le> s - 1 + int (Suc n) then m (j + 1) else m j)"
    by (auto simp: fun_eq_iff)
  then show ?case by simp
qed

text \<open>
  Whatever the library stores, \<open>strcpy\<close> returns when the source string ends, and leaves
  every byte outside its destination as it was.
\<close>

lemma strcpy_footprint:
  assumes "src \<le> e" and "m e = 0"
  shows "\<exists>m'. strcpy lib m dst src = Some m'
           \<and> (\<forall>j. j < dst \<or> dst + (e - src) < j \<longrightarrow> m' j = m j)"
proof -
  from strlen_from_some [of src e m] assms obtain e'
    where e': "strlen_from m src = Some e'" and le: "src \<le> e'" "e' \<le> e"
    by blast
  let ?n = "nat (e' - src)"
  let ?m' = "if overlaps dst src ?n
             then (\<lambda>j. if dst \<le> j \<and> j \<le> dst + int ?n then lib m dst src ?n j else m j)
             else copy_up m dst src ?n"
  have "strcpy lib m dst src = Some ?m'"
    by (simp add: strcpy_def e' Let_def)
  moreover have "?m' j = m j" if "j < dst \<or> dst + (e - src) < j" for j
  proof -
    from that le have out: "j < dst \<or> dst + int ?n < j" by auto
    then show ?thesis by (auto simp: copy_up_outside)
  qed
  ultimately show ?thesis by blast
qed

text \<open>With the copy from the first byte to the last, the rest of the string moves down.\<close>

lemma strcpy_shift:
  assumes "s \<le> e" and "m e = 0" and "\<forall>j. s \<le> j \<and> j < e \<longrightarrow> m j \<noteq> 0"
  shows "strcpy copy_up m (s - 1) s
           = Some (\<lambda>j. if s - 1 \<le> j \<and> j < e then m (j + 1) else m j)"
proof -
  let ?r = "\<lambda>j. if s - 1 \<le> j \<and> j < e then m (j + 1) else m j"
  have len: "strlen_from m s = Some e"
    using assms by (rule strlen_from_found)
  have cu: "copy_up m (s - 1) s (nat (e - s)) = ?r"
    unfolding copy_up_shift using assms(1) by (auto simp: fun_eq_iff)
  have "strcpy copy_up m (s - 1) s
          = Some (if overlaps (s - 1) s (nat (e - s))
                  then (\<lambda>j. if s - 1 \<le> j \<and> j \<le> s - 1 + int (nat (e - s))
                            then copy_up m (s - 1) s (nat (e - s)) j else m j)
                  else copy_up m (s - 1) s (nat (e - s)))"
    by (simp add: strcpy_def len Let_def)
  then show ?thesis
    unfolding cu using assms(1) by (auto simp: fun_eq_iff)
qed

lemma strcpy_drops:
  assumes "holds m (ys @ c # cs)" and "0 \<notin> set cs"
  shows "\<exists>m'. strcpy copy_up m (int (length ys)) (int (length ys) + 1) = Some m'
            \<and> holds m' (ys @ cs) \<and> (\<forall>j<0. m' j = m j)"
proof -
  let ?s = "int (length ys) + 1" and ?e = "int (length ys) + 1 + int (length cs)"
  have e: "m ?e = 0" using assms(1) by (simp add: holds_def add.commute add.left_commute)
  have at: "m (int (length ys + 1 + j)) = cs ! j" if "j < length cs" for j
    using assms(1) that by (auto simp: holds_def nth_append dest!: spec [of _ "length ys + 1 + j"])
  have nz: "\<forall>j. ?s \<le> j \<and> j < ?e \<longrightarrow> m j \<noteq> 0"
  proof (intro allI impI)
    fix j assume j: "?s \<le> j \<and> j < ?e"
    define i where "i = nat (j - ?s)"
    have i: "i < length cs" "j = int (length ys + 1 + i)" using j by (auto simp: i_def)
    then have "m j = cs ! i" using at by simp
    moreover have "cs ! i \<in> set cs" using i by simp
    ultimately show "m j \<noteq> 0" using assms(2) by auto
  qed
  have cp: "strcpy copy_up m (?s - 1) ?s = Some (\<lambda>j. if ?s - 1 \<le> j \<and> j < ?e then m (j + 1) else m j)"
    by (rule strcpy_shift) (use e nz in auto)
  let ?m' = "\<lambda>j. if ?s - 1 \<le> j \<and> j < ?e then m (j + 1) else m j"
  have "holds ?m' (ys @ cs)"
    unfolding holds_def
  proof (intro conjI allI impI)
    fix j assume j: "j < length (ys @ cs)"
    show "?m' (int j) = (ys @ cs) ! j"
    proof (cases "j < length ys")
      case True
      then show ?thesis using assms(1) by (auto simp: holds_def nth_append dest!: spec [of _ j])
    next
      case False
      then have "j - length ys < length cs" using j by auto
      from at [OF this] False show ?thesis
        using j by (auto simp: nth_append add.commute add.left_commute)
    qed
  next
    show "?m' (int (length (ys @ cs))) = 0"
      using e by (simp add: add.commute add.left_commute)
  qed
  with cp show ?thesis by auto
qed

section \<open>The loop of correctKey\<close>

lemma sint_plus_32:
  assumes "isUppercase c" shows "sint (c + 32) = sint c + 32"
proof -
  have "c + 32 = word_of_int (sint c + 32)" by simp
  moreover have "sint (word_of_int (sint c + 32) :: cchar) = sint c + 32"
    using assms by (intro sint_char_of_int) (auto simp: alphabet_defs)
  ultimately show ?thesis by simp
qed

lemma to_lower_letter:
  assumes "inBounds c"
  shows "isLowercase (to_lower c)" and "\<not> isUppercase (to_lower c)" and "to_lower c \<noteq> 0"
proof -
  show l: "isLowercase (to_lower c)"
    using assms sint_plus_32 [of c] by (auto simp: to_lower_def alphabet_defs split: if_splits)
  then show "\<not> isUppercase (to_lower c)" by (simp add: alphabet_defs)
  from l show "to_lower c \<noteq> 0" by (auto simp: alphabet_defs)
qed

lemma spec_normalize_Nil: "spec_normalize [] = []"
  by (simp add: spec_normalize_def)

lemma spec_normalize_Cons:
  "spec_normalize (c # cs) = (if inBounds c then to_lower c # spec_normalize cs else spec_normalize cs)"
  by (simp add: spec_normalize_def to_lower_def)

lemma holds_update:
  assumes "holds m (ys @ c # cs)"
  shows "holds (m(int (length ys) := c')) (ys @ c' # cs)"
  unfolding holds_def
proof (intro conjI allI impI)
  fix j assume "j < length (ys @ c' # cs)"
  then have "j < length (ys @ c # cs)" by simp
  from holds_nth [OF assms this]
  show "(m(int (length ys) := c')) (int j) = (ys @ c' # cs) ! j"
    by (auto simp: nth_append nth_Cons split: nat.splits)
next
  show "(m(int (length ys) := c')) (int (length (ys @ c' # cs))) = 0"
    using holds_end [OF assms] by simp
qed

lemma holds_update_outside: "holds m zs \<Longrightarrow> i < 0 \<Longrightarrow> holds (m(i := v)) zs"
  by (auto simp: holds_def)

lemma fold_upper_outside:
  assumes "holds (ck_key s) zs" and "ck_i s < 0 \<or> \<not> isUppercase (ck_key s (ck_i s))"
  shows "holds (ck_key (fold_upper hi s)) zs" and "ck_i (fold_upper hi s) = ck_i s"
    and "ck_length (fold_upper hi s) = ck_length s"
  using assms by (auto simp: fold_upper_def Let_def holds_update_outside)

lemma body_keep:
  assumes h: "holds (ck_key s) (ys @ c # cs)" and i: "ck_i s = int (length ys)"
    and c: "inBounds c"
  shows "\<exists>s'. correctKey_body lib hi s = Some s' \<and> holds (ck_key s') ((ys @ [to_lower c]) @ cs)
            \<and> ck_i s' = ck_i s + 1 \<and> ck_length s' = ck_length s"
proof -
  have at: "ck_key s (int (length ys)) = c"
    using holds_nth [OF h, of "length ys"] by simp
  have d: "drop_invalid lib hi s = Some (s\<lparr>ck_oob := touch hi (ck_i s) (ck_oob s)\<rparr>)"
    using c by (simp add: drop_invalid_def Let_def i at)
  let ?s1 = "s\<lparr>ck_oob := touch hi (ck_i s) (ck_oob s)\<rparr>"
  have "holds ((ck_key s)(int (length ys) := to_lower c)) (ys @ to_lower c # cs)"
    by (rule holds_update [OF h])
  moreover have "(ck_key s)(int (length ys) := c) = ck_key s"
    using at by (simp add: fun_upd_idem)
  ultimately have "holds (ck_key (fold_upper hi ?s1)) (ys @ to_lower c # cs)"
    by (auto simp: fold_upper_def Let_def i at to_lower_def range_distance_def)
  moreover have "ck_i (fold_upper hi ?s1) = ck_i s" "ck_length (fold_upper hi ?s1) = ck_length s"
    by (simp_all add: fold_upper_def Let_def)
  ultimately show ?thesis
    by (simp add: correctKey_body_def d Let_def)
qed

lemma body_drop:
  assumes h: "holds (ck_key s) (ys @ c # cs)" and i: "ck_i s = int (length ys)"
    and c: "\<not> inBounds c" and z: "0 \<notin> set cs" and u: "\<forall>c\<in>set ys. \<not> isUppercase c"
  shows "\<exists>s'. correctKey_body copy_up hi s = Some s' \<and> holds (ck_key s') (ys @ cs)
            \<and> ck_i s' = ck_i s \<and> ck_length s' = ck_length s - 1"
proof -
  have at: "ck_key s (int (length ys)) = c"
    using holds_nth [OF h, of "length ys"] by simp
  from strcpy_drops [OF h z] obtain m'
    where cp: "strcpy copy_up (ck_key s) (int (length ys)) (int (length ys) + 1) = Some m'"
      and h': "holds m' (ys @ cs)"
    by blast
  let ?s1 = "s\<lparr>ck_oob := touch hi (ck_i s) (ck_oob s), ck_key := m', ck_i := ck_i s - 1,
               ck_length := ck_length s - 1\<rparr>"
  have d: "drop_invalid copy_up hi s = Some ?s1"
    using c by (simp add: drop_invalid_def Let_def i at cp)
  have prev: "ck_i ?s1 < 0 \<or> \<not> isUppercase (ck_key ?s1 (ck_i ?s1))"
  proof (cases ys rule: rev_cases)
    case Nil
    then show ?thesis by (simp add: i)
  next
    case (snoc ys' y)
    then have "m' (int (length ys')) = y"
      using holds_nth [OF h', of "length ys'"] by (simp add: nth_append)
    moreover have "\<not> isUppercase y" using u snoc by simp
    ultimately show ?thesis using snoc by (simp add: i)
  qed
  have "holds (ck_key ?s1) (ys @ cs)" using h' by simp
  from fold_upper_outside [OF this prev, of hi] show ?thesis
    by (simp add: correctKey_body_def d Let_def)
qed

lemma correctKey_loop_normalizes:
  assumes "holds (ck_key s) (ys @ rest)" and "0 \<notin> set rest"
    and "\<forall>c\<in>set ys. \<not> isUppercase c"
    and "ck_i s = int (length ys)" and "ck_length s = int (length (ys @ rest))"
  shows "\<exists>s'. correctKey_loop copy_up hi s = Some s'
           \<and> holds (ck_key s') (ys @ spec_normalize rest)"
  using assms
proof (induction rest arbitrary: ys s)
  case Nil
  then show ?case by (subst correctKey_loop.simps) (simp add: spec_normalize_Nil)
next
  case (Cons c cs)
  have run: "ck_i s < ck_length s" using Cons.prems by simp
  show ?case
  proof (cases "inBounds c")
    case True
    from body_keep [OF Cons.prems(1) Cons.prems(4) True, of copy_up hi] obtain s1
      where b: "correctKey_body copy_up hi s = Some s1"
        and h1: "holds (ck_key s1) ((ys @ [to_lower c]) @ cs)"
        and i1: "ck_i s1 = ck_i s + 1" and l1: "ck_length s1 = ck_length s"
      by blast
    have "\<exists>s'. correctKey_loop copy_up hi s1 = Some s'
             \<and> holds (ck_key s') ((ys @ [to_lower c]) @ spec_normalize cs)"
      using Cons.prems h1 i1 l1 to_lower_letter(2) [OF True]
      by (intro Cons.IH) auto
    then show ?thesis
      using run b True by (subst correctKey_loop.simps) (simp add: spec_normalize_Cons)
  next
    case False
    from body_drop [OF Cons.prems(1) Cons.prems(4) False _ Cons.prems(3), of hi] Cons.prems(2)
    obtain s1
      where b: "correctKey_body copy_up hi s = Some s1"
        and h1: "holds (ck_key s1) (ys @ cs)"
        and i1: "ck_i s1 = ck_i s" and l1: "ck_length s1 = ck_length s - 1"
      by auto
    have "\<exists>s'. correctKey_loop copy_up hi s1 = Some s' \<and> holds (ck_key s') (ys @ spec_normalize cs)"
      using Cons.prems h1 i1 l1 by (intro Cons.IH) auto
    then show ?thesis
      using run b False by (subst correctKey_loop.simps) (simp add: spec_normalize_Cons)
  qed
qed

lemma spec_normalize_nonzero: "0 \<notin> set (spec_normalize xs)"
proof (induction xs)
  case Nil
  then show ?case by (simp add: spec_normalize_Nil)
next
  case (Cons c cs)
  then show ?case using to_lower_letter(3) [of c] by (auto simp: spec_normalize_Cons)
qed

text \<open>
  Whatever the library stores: the terminator the key had on entry stays in place, so
  every \<open>strcpy\<close> and the loop return, and the recorded subscripts only grow.
\<close>

lemma touch_appends: "\<exists>rest. touch hi idx log = log @ rest"
  by (simp add: touch_def)

lemma fold_upper_keeps:
  assumes "ck_key s N = 0" and "ck_i s < N"
  shows "ck_key (fold_upper hi s) N = 0" and "ck_i (fold_upper hi s) = ck_i s"
    and "ck_length (fold_upper hi s) = ck_length s"
    and "\<exists>rest. ck_oob (fold_upper hi s) = ck_oob s @ rest"
  using assms by (auto simp: fold_upper_def Let_def touch_def)

lemma drop_invalid_returns:
  assumes z: "ck_key s N = 0" and run: "ck_i s < ck_length s" and l: "ck_length s \<le> N"
  shows "\<exists>s1 rest. drop_invalid lib hi s = Some s1 \<and> ck_key s1 N = 0
           \<and> ck_i s - 1 \<le> ck_i s1 \<and> ck_i s1 < N \<and> ck_length s1 \<le> N
           \<and> ck_length s1 - ck_i s1 = ck_length s - ck_i s
           \<and> ck_oob s1 = ck_oob s @ rest"
proof (cases "inBounds (ck_key s (ck_i s))")
  case True
  then show ?thesis
    using assms touch_appends [of hi "ck_i s" "ck_oob s"]
    by (auto simp: drop_invalid_def Let_def)
next
  case False
  have "ck_i s + 1 \<le> N" using run l by simp
  from strcpy_footprint [of "ck_i s + 1" N "ck_key s" lib "ck_i s"] this z obtain m'
    where cp: "strcpy lib (ck_key s) (ck_i s) (ck_i s + 1) = Some m'"
      and out: "\<forall>j. j < ck_i s \<or> ck_i s + (N - (ck_i s + 1)) < j \<longrightarrow> m' j = ck_key s j"
    by blast
  from out have "m' N = ck_key s N" by simp
  with z have "m' N = 0" by simp
  then show ?thesis
    using False assms touch_appends [of hi "ck_i s" "ck_oob s"]
    by (auto simp: drop_invalid_def Let_def cp)
qed

lemma correctKey_body_returns:
  assumes z: "ck_key s N = 0" and i: "0 \<le> ck_i s" and run: "ck_i s < ck_length s"
    and l: "ck_length s \<le> N"
  shows "\<exists>s' rest. correctKey_body lib hi s = Some s' \<and> ck_key s' N = 0 \<and> 0 \<le> ck_i s'
           \<and> ck_length s' \<le> N \<and> ck_oob s' = ck_oob s @ rest"
proof -
  from drop_invalid_returns [OF z run l, of lib hi] obtain s1 r1
    where d: "drop_invalid lib hi s = Some s1" and z1: "ck_key s1 N = 0"
      and i1: "ck_i s - 1 \<le> ck_i s1" "ck_i s1 < N" and l1: "ck_length s1 \<le> N"
      and o1: "ck_oob s1 = ck_oob s @ r1"
    by blast
  from fold_upper_keeps [OF z1 i1(2), of hi] obtain r2
    where f: "ck_key (fold_upper hi s1) N = 0" "ck_i (fold_upper hi s1) = ck_i s1"
      "ck_length (fold_upper hi s1) = ck_length s1"
      "ck_oob (fold_upper hi s1) = ck_oob s1 @ r2"
    by blast
  show ?thesis
    using i i1 l1 o1 f by (simp add: correctKey_body_def d Let_def)
qed

lemma correctKey_loop_returns:
  assumes "ck_key s N = 0" and "0 \<le> ck_i s" and "ck_length s \<le> N"
  shows "\<exists>s' rest. correctKey_loop lib hi s = Some s' \<and> ck_key s' N = 0
           \<and> ck_oob s' = ck_oob s @ rest"
  using assms
proof (induction lib hi s rule: correctKey_loop.induct)
  case (1 lib hi s)
  show ?case
  proof (cases "ck_i s < ck_length s")
    case True
    from correctKey_body_returns [OF "1.prems"(1,2) True "1.prems"(3), of lib hi] obtain s1 r1
      where b: "correctKey_body lib hi s = Some s1" and inv: "ck_key s1 N = 0" "0 \<le> ck_i s1"
        "ck_length s1 \<le> N" and o: "ck_oob s1 = ck_oob s @ r1"
      by blast
    from "1.IH" [OF True b inv] obtain s' r2
      where "correctKey_loop lib hi s1 = Some s'" "ck_key s' N = 0" "ck_oob s' = ck_oob s1 @ r2"
      by blast
    with True b o show ?thesis
      by (subst correctKey_loop.simps) simp
  next
    case False
    with "1.prems" show ?thesis by (subst correctKey_loop.simps) simp
  qed
qed

section \<open>The loop of vigenere\<close>

lemma vigenere_body_i: "vg_i (vigenere_body key keylen s) = vg_i s + 1"
  by (simp add: vigenere_body_def Let_def)

lemma vigenere_loop_funpow:
  "vg_i s \<le> len \<Longrightarrow>
   vigenere_loop key keylen len s = (vigenere_body key keylen ^^ nat (len - vg_i s)) s"
proof (induction key keylen len s rule: vigenere_loop.induct)
  case (1 key keylen len s)
  show ?case
  proof (cases "vg_i s < len")
    case True
    then have n: "nat (len - vg_i s) = Suc (nat (len - (vg_i s + 1)))" by simp
    from True "1.IH" have "vigenere_loop key keylen len (vigenere_body key keylen s)
        = (vigenere_body key keylen ^^ nat (len - (vg_i s + 1))) (vigenere_body key keylen s)"
      by (simp add: vigenere_body_i)
    with True show ?thesis
      by (subst vigenere_loop.simps) (simp add: n funpow_Suc_right del: funpow.simps)
  next
    case False
    with "1.prems" show ?thesis by (subst vigenere_loop.simps) simp
  qed
qed

lemma cursor_step:
  assumes "0 < L"
  shows "wrap_cursor (int L) (int (if n = 0 then 0 else Suc ((n - 1) mod L))) = int (n mod L)"
proof (cases n)
  case 0
  with assms show ?thesis by (simp add: wrap_cursor_def)
next
  case (Suc m)
  then show ?thesis using assms by (auto simp: wrap_cursor_def mod_Suc)
qed

lemma vigenere_at_invariant:
  assumes K: "holds K k" and P: "holds P p" and ne: "k \<noteq> []" and n: "n \<le> length p"
  shows "vigenere_at K (int (length k)) P n =
           \<lparr>vg_i = int n,
            vg_keyi = int (if n = 0 then 0 else Suc ((n - 1) mod length k)),
            vg_plainText = (\<lambda>j. if 0 \<le> j \<and> j < int n then rotated p k (nat j) else P j),
            vg_oob = []\<rparr>"
  using n
proof (induction n)
  case 0
  have "(\<lambda>j. if 0 \<le> j \<and> j < int 0 then rotated p k (nat j) else P j) = P"
    by (rule ext) auto
  then show ?case by (simp add: vigenere_at_def vigenere_start_def)
next
  case (Suc n)
  let ?L = "length k"
  have L: "0 < ?L" using ne by simp
  have lt: "n mod ?L < ?L" using L by simp
  have kc: "K (int (n mod ?L)) = k ! (n mod ?L)" using holds_nth [OF K lt] .
  have pc: "P (int n) = p ! n" using holds_nth [OF P, of n] Suc.prems by simp
  have t: "touch (int ?L) (int (n mod ?L)) [] = []" using lt by (simp add: touch_def)
  have st: "vigenere_at K (int ?L) P (Suc n) = vigenere_body K (int ?L) (vigenere_at K (int ?L) P n)"
    by (simp add: vigenere_at_def)
  have pt: "(\<lambda>j. if 0 \<le> j \<and> j < int n then rotated p k (nat j) else P j)
              (int n := calculateRotShift (p ! n) (k ! (n mod ?L)))
            = (\<lambda>j. if 0 \<le> j \<and> j < int (Suc n) then rotated p k (nat j) else P j)"
    if "inBounds (p ! n)"
  proof (rule ext)
    fix j show "((\<lambda>j. if 0 \<le> j \<and> j < int n then rotated p k (nat j) else P j)
              (int n := calculateRotShift (p ! n) (k ! (n mod ?L)))) j
            = (if 0 \<le> j \<and> j < int (Suc n) then rotated p k (nat j) else P j)"
      by (cases "j = int n") (use that in \<open>auto simp: rotated_def\<close>)
  qed
  have pt': "(\<lambda>j. if 0 \<le> j \<and> j < int n then rotated p k (nat j) else P j)
            = (\<lambda>j. if 0 \<le> j \<and> j < int (Suc n) then rotated p k (nat j) else P j)"
    if "\<not> inBounds (p ! n)"
  proof (rule ext)
    fix j show "(if 0 \<le> j \<and> j < int n then rotated p k (nat j) else P j)
            = (if 0 \<le> j \<and> j < int (Suc n) then rotated p k (nat j) else P j)"
      by (cases "j = int n") (use that pc in \<open>auto simp: rotated_def\<close>)
  qed
  show ?case
    unfolding st using Suc L
    by (simp add: vigenere_body_def Let_def cursor_step [OF L] kc pc t pt pt' del: of_nat_Suc)
qed

lemma vigenere_run:
  assumes K: "holds K k" and P: "holds P p" and zk: "0 \<notin> set k" and zp: "0 \<notin> set p"
  shows "vigenere (Ptr P) (Ptr K)
           = Some (Returned (vigenere_at K (int (length k)) P (length p)))"
  using vigenere_loop_funpow [of "vigenere_start P" "int (length p)" K "int (length k)"]
  by (simp add: strlen_holds [OF K zk] strlen_holds [OF P zp] vigenere_at_def vigenere_start_def)

lemma vigenere_at_i: "vg_i (vigenere_at key keylen plainText n) = int n"
  by (induction n) (simp_all add: vigenere_at_def vigenere_start_def vigenere_body_i)

text \<open>Whatever the key, also the empty one, the loop makes \<open>length p\<close> iterations.\<close>

lemma vigenere_iterations:
  assumes "0 \<notin> set p" and "0 \<notin> set k"
  shows "iterations (vigenere (Ptr (store_of bgp p)) (Ptr (store_of bgk k)))
           = Some (int (length p))"
proof -
  have "vigenere (Ptr (store_of bgp p)) (Ptr (store_of bgk k))
      = Some (Returned (vigenere_at (store_of bgk k) (int (length k)) (store_of bgp p) (length p)))"
    using assms by (intro vigenere_run) (simp_all add: holds_store_of)
  then show ?thesis by (simp add: iterations_def vigenere_at_i)
qed

lemma canonical_nth: "canonical k \<Longrightarrow> i < length k \<Longrightarrow> inBounds (k ! i)"
  by (simp add: canonical_def list_all_length inBounds_def)

lemma canonical_nonzero: "canonical k \<Longrightarrow> 0 \<notin> set k"
  by (auto simp: canonical_def list_all_iff alphabet_defs)

lemma key_char: "canonical k \<Longrightarrow> k \<noteq> [] \<Longrightarrow> inBounds (k ! (i mod length k))"
  by (simp add: canonical_nth)

lemma rotated_nonzero:
  assumes "canonical k" and "k \<noteq> []" and "0 \<notin> set p" and "i < length p"
  shows "rotated p k i \<noteq> 0"
proof (cases "inBounds (p ! i)")
  case True
  then show ?thesis
    using rot_inBounds [OF True key_char [OF assms(1,2)], of i] inBounds_nonzero
    by (auto simp: rotated_def)
next
  case False
  moreover have "p ! i \<in> set p" using assms(4) by simp
  ultimately show ?thesis using assms(3) by (auto simp: rotated_def)
qed

lemma vigenere_ciphertext:
  assumes k: "canonical k" and ne: "k \<noteq> []" and p: "0 \<notin> set p"
  shows "ciphertext_of (vigenere (Ptr (store_of bgp p)) (Ptr (store_of bgk k)))
           = Some (ciphered p k)"
proof -
  let ?P = "store_of bgp p" and ?K = "store_of bgk k"
  let ?s = "vigenere_at ?K (int (length k)) ?P (length p)"
  have run: "vigenere (Ptr ?P) (Ptr ?K) = Some (Returned ?s)"
    by (rule vigenere_run) (use canonical_nonzero [OF k] p in \<open>simp_all add: holds_store_of\<close>)
  have pt: "vg_plainText ?s
              = (\<lambda>j. if 0 \<le> j \<and> j < int (length p) then rotated p k (nat j) else ?P j)"
    by (subst vigenere_at_invariant [where k = k and p = p])
       (use ne in \<open>simp_all add: holds_store_of\<close>)
  have h: "holds (vg_plainText ?s) (ciphered p k)"
    unfolding pt by (simp add: holds_def ciphered_def store_of_def)
  have "0 \<notin> set (ciphered p k)"
    using rotated_nonzero [OF k ne p] by (auto simp: ciphered_def)
  from c_string_of_holds [OF h this] show ?thesis
    unfolding run by (simp add: ciphertext_of_def)
qed

section \<open>Key normalisation\<close>

text \<open>
  Where the library copies from the first byte to the last, \<open>correctKey\<close> returns the
  letters of the key in their order, the uppercase ones folded.
\<close>

lemma copy_up_returns:
  assumes "0 \<notin> set xs"
  shows "\<exists>s. correctKey copy_up (Ptr (store_of bg xs)) = Some (Returned s)
           \<and> holds (ck_key s) (spec_normalize xs)"
proof -
  let ?m = "store_of bg xs"
  let ?s0 = "\<lparr>ck_i = 0, ck_length = int (length xs), ck_key = ?m, ck_oob = []\<rparr>"
  have len: "strlen ?m = Some (int (length xs))"
    using holds_store_of assms by (rule strlen_holds)
  have "\<exists>s'. correctKey_loop copy_up (int (length xs)) ?s0 = Some s'
           \<and> holds (ck_key s') ([] @ spec_normalize xs)"
    by (rule correctKey_loop_normalizes) (use assms in \<open>simp_all add: holds_store_of\<close>)
  then obtain s' where l: "correctKey_loop copy_up (int (length xs)) ?s0 = Some s'"
    and h: "holds (ck_key s') (spec_normalize xs)" by auto
  have n: "strlen (ck_key s') = Some (int (length (spec_normalize xs)))"
    using h spec_normalize_nonzero by (rule strlen_holds)
  have "(ck_key s')(int (length (spec_normalize xs)) := 0) = ck_key s'"
    using holds_end [OF h] by (simp add: fun_upd_idem)
  then show ?thesis
    using h by (simp add: len l n realloc_def)
qed

lemma copy_up_normalizes:
  assumes "0 \<notin> set xs"
  shows "key_of (correctKey copy_up (Ptr (store_of bg xs))) = Some (spec_normalize xs)"
proof -
  from copy_up_returns [OF assms, of bg] obtain s
    where r: "correctKey copy_up (Ptr (store_of bg xs)) = Some (Returned s)"
      and h: "holds (ck_key s) (spec_normalize xs)"
    by blast
  from c_string_of_holds [OF h spec_normalize_nonzero] show ?thesis
    unfolding r by (simp add: key_of_def)
qed


text \<open>
  C4. On the key \<open>1aB-c\<close> the letters in their order, folded, are \<open>abc\<close>. Removing the
  \<open>1\<close> calls \<open>strcpy\<close> on the overlapping strings \<open>key\<close> and \<open>key + 1\<close>, and what
  \<open>correctKey\<close> returns follows the library: \<open>abc\<close> with the copy from the first byte to
  the last, \<open>acc\<close> with the copy in two words, the empty string with the copy from the
  last byte to the first.
\<close>

theorem correctKey_depends_on_strcpy:
  "spec_normalize (bytes ''1aB-c'') = bytes ''abc''
   \<and> key_of (correctKey copy_up (cstr ''1aB-c'')) = Some (bytes ''abc'')
   \<and> key_of (correctKey copy_words (cstr ''1aB-c'')) = Some (bytes ''acc'')
   \<and> key_of (correctKey copy_down (cstr ''1aB-c'')) = Some (bytes '''')"
  by code_simp


text \<open>
  C10. On the key \<open>1a\<close> the first character is dropped at \<open>i = 0\<close>, \<open>i\<close> becomes
  \<open>- 1\<close>, and the uppercase test of line 155 reads \<open>key[- 1]\<close>, one byte before the
  buffer: with every library this is the first subscript to leave the block, and with
  the copy from the first byte to the last it is the only one.
\<close>

theorem correctKey_reads_before_buffer:
  "(\<exists>rest. key_oob (correctKey lib (cstr ''1a'')) = Some (- 1 # rest))
   \<and> key_oob (correctKey copy_up (cstr ''1a'')) = Some [- 1]"
proof
  let ?m = "store_of zero_mem (bytes ''1a'')"
  let ?s0 = "\<lparr>ck_i = 0, ck_length = 2, ck_key = ?m, ck_oob = []\<rparr>"
  have len: "strlen ?m = Some 2"
    by code_simp
  obtain m1 where cp: "strcpy lib ?m 0 (0 + 1) = Some m1"
    and out: "m1 (- 1) = ?m (- 1)" "m1 2 = ?m 2"
    using strcpy_footprint [of "0 + 1" 2 ?m lib 0] by (auto simp: store_of_def bytes_def)
  have m0: "?m 0 = 49" "?m (- 1) = 0" "?m 2 = 0"
    by (simp_all add: store_of_def bytes_def zero_mem_def)
  let ?s1 = "\<lparr>ck_i = 0, ck_length = 1, ck_key = m1, ck_oob = [- 1]\<rparr>"
  have b: "correctKey_body lib 2 ?s0 = Some ?s1"
    using cp out m0
    by (simp add: correctKey_body_def drop_invalid_def fold_upper_def Let_def touch_def
                  alphabet_defs)
  have "\<exists>s' rest. correctKey_loop lib 2 ?s1 = Some s' \<and> ck_key s' 2 = 0
          \<and> ck_oob s' = ck_oob ?s1 @ rest"
    by (rule correctKey_loop_returns) (use out m0 in simp_all)
  then obtain s' rest where l: "correctKey_loop lib 2 ?s1 = Some s'" and z: "ck_key s' 2 = 0"
    and o: "ck_oob s' = [- 1] @ rest"
    by auto
  have l0: "correctKey_loop lib 2 ?s0 = Some s'"
    using b l by (subst correctKey_loop.simps) simp
  from strlen_from_some [of 0 2 "ck_key s'"] z obtain n
    where n: "strlen (ck_key s') = Some n"
    by (auto simp: strlen_def)
  show "\<exists>rest. key_oob (correctKey lib (cstr ''1a'')) = Some (- 1 # rest)"
    using o by (simp add: cstr_def len l0 n realloc_def key_oob_def)
next
  show "key_oob (correctKey copy_up (cstr ''1a'')) = Some [- 1]"
    by code_simp
qed

section \<open>The ciphering pass\<close>

text \<open>
  C1. Under a non-empty canonical key the pass is \<open>length p\<close> iterations of the body.
  On entering iteration \<open>n\<close> the loop variable is \<open>n\<close>; after the wrap test the cursor is
  \<open>n mod length k\<close>, so the key character of this position is \<open>k ! (n mod length k)\<close>;
  the body leaves the cursor one further, whether or not \<open>p ! n\<close> is a letter, and
  rotates a letter by exactly that key character.
\<close>

theorem vigenere_cursor:
  assumes "k \<noteq> []" and "canonical k" and "0 \<notin> set p" and "n < length p"
  shows "vigenere (Ptr (store_of bgp p)) (Ptr (store_of bgk k))
           = Some (Returned (vigenere_at (store_of bgk k) (int (length k)) (store_of bgp p)
                     (length p)))
       \<and> (let s = vigenere_at (store_of bgk k) (int (length k)) (store_of bgp p) n;
              keyi = wrap_cursor (int (length k)) (vg_keyi s);
              s' = vigenere_body (store_of bgk k) (int (length k)) s
          in vg_i s = int n
           \<and> keyi = int (n mod length k)
           \<and> store_of bgk k keyi = k ! (n mod length k)
           \<and> vg_keyi s' = keyi + 1
           \<and> vg_plainText s' (int n)
               = (if inBounds (p ! n) then calculateRotShift (p ! n) (k ! (n mod length k))
                  else p ! n))"
proof -
  let ?K = "store_of bgk k" and ?P = "store_of bgp p" and ?L = "length k"
  have L: "0 < ?L" using assms(1) by simp
  have K: "holds ?K k" and P: "holds ?P p" by (rule holds_store_of)+
  have run: "vigenere (Ptr ?P) (Ptr ?K) = Some (Returned (vigenere_at ?K (int ?L) ?P (length p)))"
    using K P canonical_nonzero [OF assms(2)] assms(3) by (rule vigenere_run)
  have s: "vigenere_at ?K (int ?L) ?P n =
           \<lparr>vg_i = int n,
            vg_keyi = int (if n = 0 then 0 else Suc ((n - 1) mod ?L)),
            vg_plainText = (\<lambda>j. if 0 \<le> j \<and> j < int n then rotated p k (nat j) else ?P j),
            vg_oob = []\<rparr>"
    using K P assms(1) by (rule vigenere_at_invariant) (use assms(4) in simp)
  have s': "vigenere_body ?K (int ?L) (vigenere_at ?K (int ?L) ?P n) =
           \<lparr>vg_i = int (Suc n),
            vg_keyi = int (if Suc n = 0 then 0 else Suc ((Suc n - 1) mod ?L)),
            vg_plainText = (\<lambda>j. if 0 \<le> j \<and> j < int (Suc n) then rotated p k (nat j) else ?P j),
            vg_oob = []\<rparr>"
    using vigenere_at_invariant [OF K P assms(1), of "Suc n"] assms(4)
    by (simp add: vigenere_at_def)
  have kc: "?K (int (n mod ?L)) = k ! (n mod ?L)"
    using holds_nth [OF K, of "n mod ?L"] L by simp
  have cur: "wrap_cursor (int ?L) (vg_keyi (vigenere_at ?K (int ?L) ?P n)) = int (n mod ?L)"
    unfolding s using cursor_step [OF L, of n] by simp
  show ?thesis
    unfolding Let_def cur s'
    using run kc by (simp add: s rotated_def)
qed

theorem vigenere_cursor_witness:
  "bytes ''ab'' \<noteq> [] \<and> canonical (bytes ''ab'') \<and> 0 \<notin> set (bytes ''a-c'')
   \<and> (2::nat) < length (bytes ''a-c'')
   \<and> wrap_cursor 2 (vg_keyi (vigenere_at (store_of zero_mem (bytes ''ab'')) 2
        (store_of zero_mem (bytes ''a-c'')) 2)) = 0
   \<and> vg_keyi (vigenere_body (store_of zero_mem (bytes ''ab'')) 2
        (vigenere_at (store_of zero_mem (bytes ''ab'')) 2
          (store_of zero_mem (bytes ''a-c'')) 2)) = 1"
proof -
  have h: "bytes ''ab'' \<noteq> []" "canonical (bytes ''ab'')" "0 \<notin> set (bytes ''a-c'')"
    "(2::nat) < length (bytes ''a-c'')"
    by (simp_all add: bytes_def canonical_def alphabet_defs)
  have len: "int (length (bytes ''ab'')) = 2" "2 mod length (bytes ''ab'') = 0"
    by (simp_all add: bytes_def flip: numeral_2_eq_2)
  note c = vigenere_cursor [OF h, of zero_mem zero_mem, unfolded Let_def len]
  from c have a: "wrap_cursor 2 (vg_keyi (vigenere_at (store_of zero_mem (bytes ''ab'')) 2
        (store_of zero_mem (bytes ''a-c'')) 2)) = int 0"
    by (rule conjunct2 [THEN conjunct2, THEN conjunct1])
  from c have "vg_keyi (vigenere_body (store_of zero_mem (bytes ''ab'')) 2
        (vigenere_at (store_of zero_mem (bytes ''ab'')) 2
          (store_of zero_mem (bytes ''a-c'')) 2))
      = wrap_cursor 2 (vg_keyi (vigenere_at (store_of zero_mem (bytes ''ab'')) 2
        (store_of zero_mem (bytes ''a-c'')) 2)) + 1"
    by (rule conjunct2 [THEN conjunct2, THEN conjunct2, THEN conjunct2, THEN conjunct1])
  with a have "vg_keyi (vigenere_body (store_of zero_mem (bytes ''ab'')) 2
        (vigenere_at (store_of zero_mem (bytes ''ab'')) 2
          (store_of zero_mem (bytes ''a-c'')) 2)) = 1"
    by simp
  moreover note a
  ultimately show ?thesis using h by simp
qed

text \<open>
  C3. Under a non-empty canonical key the returned string has the length of the
  plaintext; at every position a lowercase letter gives a lowercase letter, an uppercase
  letter an uppercase letter, and any other character is unchanged.
\<close>

theorem vigenere_preserves_shape:
  assumes "k \<noteq> []" and "canonical k" and "0 \<notin> set p"
  shows "\<exists>out. ciphertext_of (vigenere (Ptr (store_of bgp p)) (Ptr (store_of bgk k))) = Some out
           \<and> length out = length p
           \<and> (\<forall>i<length p.
                (isLowercase (p ! i) \<longrightarrow> isLowercase (out ! i))
              \<and> (isUppercase (p ! i) \<longrightarrow> isUppercase (out ! i))
              \<and> (\<not> inBounds (p ! i) \<longrightarrow> out ! i = p ! i))"
proof (intro exI conjI allI impI)
  show "ciphertext_of (vigenere (Ptr (store_of bgp p)) (Ptr (store_of bgk k)))
          = Some (ciphered p k)"
    using assms by (intro vigenere_ciphertext)
  show "length (ciphered p k) = length p" by (simp add: ciphered_def)
next
  fix i assume i: "i < length p"
  have kc: "inBounds (k ! (i mod length k))" using assms by (intro key_char)
  { assume l: "isLowercase (p ! i)"
    then have "inBounds (p ! i)" by (simp add: inBounds_def)
    from rot_case(1) [OF this kc l] l i show "isLowercase (ciphered p k ! i)"
      by (simp add: ciphered_def rotated_def inBounds_def) }
  { assume u: "isUppercase (p ! i)"
    then have "inBounds (p ! i)" by (simp add: inBounds_def)
    from rot_case(2) [OF this kc u] u i show "isUppercase (ciphered p k ! i)"
      by (simp add: ciphered_def rotated_def inBounds_def) }
  { assume "\<not> inBounds (p ! i)"
    with i show "ciphered p k ! i = p ! i" by (simp add: ciphered_def rotated_def) }
qed

theorem vigenere_preserves_shape_witness:
  "bytes ''key'' \<noteq> [] \<and> canonical (bytes ''key'') \<and> 0 \<notin> set (bytes ''Hi!'')
   \<and> (\<exists>out. ciphertext_of (vigenere (Ptr (store_of zero_mem (bytes ''Hi!'')))
                                     (Ptr (store_of zero_mem (bytes ''key'')))) = Some out
          \<and> length out = 3 \<and> isUppercase (out ! 0) \<and> isLowercase (out ! 1) \<and> out ! 2 = 33)"
proof -
  have h: "bytes ''key'' \<noteq> []" "canonical (bytes ''key'')" "0 \<notin> set (bytes ''Hi!'')"
    by (simp_all add: bytes_def canonical_def alphabet_defs)
  from vigenere_preserves_shape [OF h, of zero_mem zero_mem] obtain out
    where o: "ciphertext_of (vigenere (Ptr (store_of zero_mem (bytes ''Hi!'')))
                                     (Ptr (store_of zero_mem (bytes ''key'')))) = Some out"
      and l: "length out = length (bytes ''Hi!'')"
      and a: "\<forall>i<length (bytes ''Hi!'').
                (isLowercase (bytes ''Hi!'' ! i) \<longrightarrow> isLowercase (out ! i))
              \<and> (isUppercase (bytes ''Hi!'' ! i) \<longrightarrow> isUppercase (out ! i))
              \<and> (\<not> inBounds (bytes ''Hi!'' ! i) \<longrightarrow> out ! i = bytes ''Hi!'' ! i)"
    by blast
  from a [rule_format, of 0] have "isUppercase (out ! 0)"
    by (simp add: bytes_def alphabet_defs)
  moreover from a [rule_format, of 1] have "isLowercase (out ! 1)"
    by (simp add: bytes_def alphabet_defs)
  moreover from a [rule_format, of 2] have "out ! 2 = 33"
    by (simp add: bytes_def alphabet_defs)
  moreover have "length out = 3" using l by (simp add: bytes_def)
  ultimately show ?thesis using h o by blast
qed

text \<open>
  C7. Under a non-empty canonical key, the specification's inverse transform applied to
  the returned ciphertext with the same key gives the plaintext back.
\<close>

theorem decipher_encipher:
  assumes "k \<noteq> []" and "canonical k" and "0 \<notin> set p"
  shows "map_option (\<lambda>c. spec_decipher c k)
           (ciphertext_of (vigenere (Ptr (store_of bgp p)) (Ptr (store_of bgk k)))) = Some p"
proof -
  have "spec_decipher (ciphered p k) k = p"
  proof (rule nth_equalityI)
    show "length (spec_decipher (ciphered p k) k) = length p"
      by (simp add: spec_decipher_def ciphered_def)
  next
    fix i assume "i < length (spec_decipher (ciphered p k) k)"
    then have i: "i < length p" by (simp add: spec_decipher_def ciphered_def)
    have kc: "inBounds (k ! (i mod length k))" using assms by (intro key_char)
    show "spec_decipher (ciphered p k) k ! i = p ! i"
    proof (cases "inBounds (p ! i)")
      case True
      with i show ?thesis
        by (simp add: spec_decipher_def ciphered_def rotated_def rot_inBounds [OF True kc]
                      unrotate_rot [OF True kc])
    next
      case False
      with i show ?thesis by (simp add: spec_decipher_def ciphered_def rotated_def)
    qed
  qed
  then show ?thesis using vigenere_ciphertext [OF assms(2,1,3), of bgp bgk] by simp
qed

theorem decipher_encipher_witness:
  "bytes ''key'' \<noteq> [] \<and> canonical (bytes ''key'') \<and> 0 \<notin> set (bytes ''Hello, World!'')
   \<and> map_option (\<lambda>c. spec_decipher c (bytes ''key''))
        (ciphertext_of (vigenere (Ptr (store_of zero_mem (bytes ''Hello, World!'')))
                                 (Ptr (store_of zero_mem (bytes ''key'')))))
       = Some (bytes ''Hello, World!'')"
  using decipher_encipher [of "bytes ''key''" "bytes ''Hello, World!''" zero_mem zero_mem]
  by (simp add: bytes_def canonical_def alphabet_defs)

text \<open>
  C2. \<open>Attack at dawn\<close> under \<open>lemon\<close>: the two spaces each use up a key character, and
  the result has the 14 characters of the input, every letter in the case of the letter
  it replaces. It is \<open>Lxfopv mh oeib\<close>, not \<open>Lxfopv ef rgnkw\<close>.
\<close>

theorem attack_at_dawn_value:
  "ciphertext_of (vigenere (cstr ''Attack at dawn'') (cstr ''lemon''))
     = Some (bytes ''Lxfopv mh oeib'')
   \<and> list_all2 (\<lambda>a b. isUppercase a = isUppercase b \<and> isLowercase a = isLowercase b)
        (bytes ''Attack at dawn'') (bytes ''Lxfopv mh oeib'')"
  by code_simp

theorem attack_at_dawn_counterexample:
  "ciphertext_of (vigenere (cstr ''Attack at dawn'') (cstr ''lemon''))
     \<noteq> Some (bytes ''Lxfopv ef rgnkw'')"
  by code_simp

text \<open>
  C8. With the empty key \<open>keylen\<close> is 0: the cursor is reset in the first iteration only,
  is 1 on entering the second, and never equals \<open>keylen\<close> again. On the plaintext \<open>ab\<close>
  the pass makes its two iterations and the second one reads \<open>key[1]\<close>, one byte after the
  terminator of the key.
\<close>

theorem empty_key_reads_past_key:
  "cipher_oob (vigenere (cstr ''ab'') (cstr '''')) = Some [1]
   \<and> iterations (vigenere (cstr ''ab'') (cstr '''')) = Some 2"
  by code_simp

section \<open>Absent arguments\<close>



end
